theory Spec2Isabelle
  imports Complex_Main "HOL-Library.Monad_Syntax"
begin

section \<open>The data model of AVLtree.cpp\<close>

text \<open>
  \<^verbatim>\<open>struct Node { T value; Node* left; Node* right; int height; }\<close>.
  A \<^verbatim>\<open>Node*\<close> is either \<^verbatim>\<open>nullptr\<close> (\<open>Null\<close>) or the address of a node that
  is owned by exactly one parent link, so a pointer is modelled by the subtree it points to.
  The element type needs \<^verbatim>\<open>operator<\<close> only; it is a linear order here.

  The cached height is a C++ \<^verbatim>\<open>int\<close>. It is modelled by an unbounded \<open>int\<close>: the only
  writes are the constructor's \<open>1\<close> and \<^verbatim>\<open>updateHeight\<close>, and lemma \<open>avl_fib_size\<close> below
  shows that a tree whose cached height is \<open>h\<close> holds at least \<open>fib (h + 2) - 1\<close> nodes, so
  the 32-bit range cannot be left by a tree that fits into an address space. Where a
  statement leaves the cached heights free (the rotations), it assumes that they are
  32-bit values with room for the increments, and shows that the new heights are 32-bit
  values again.
  \<^verbatim>\<open>new Node(value)\<close> is taken to succeed.
\<close>

datatype 'a node = Null | Node (nvalue: 'a) (left: "'a node") (right: "'a node") (height: int)

record 'a AVLTree =
  root :: "'a node"

text \<open>
  The values a 32-bit \<^verbatim>\<open>int\<close> can hold, and the cached heights of a subtree root that
  leave room for the two increments of a rotation.
\<close>

definition int32 :: "int \<Rightarrow> bool" where
  "int32 i = (- 2147483648 \<le> i \<and> i \<le> 2147483647)"

definition height_room :: "int \<Rightarrow> bool" where
  "height_room i = (- 2147483648 \<le> i \<and> i \<le> 2147483645)"

text \<open>The operations of the public interface, for running call sequences.\<close>

datatype 'a call = Insert 'a | Remove 'a

section \<open>Helper functions\<close>

text \<open>
  A function that dereferences its pointer argument returns \<open>None\<close> when that pointer (or a
  child pointer it dereferences) is \<^verbatim>\<open>nullptr\<close>: undefined behaviour in the source.
\<close>

fun getHeight :: "'a node \<Rightarrow> int" where
  "getHeight Null = 0"
| "getHeight (Node v l r h) = h"

fun updateHeight :: "'a node \<Rightarrow> 'a node option" where
  "updateHeight Null = None"
| "updateHeight (Node v l r h) = Some (Node v l r (1 + max (getHeight l) (getHeight r)))"

fun getBalance :: "'a node \<Rightarrow> int" where
  "getBalance Null = 0"
| "getBalance (Node v l r h) = getHeight l - getHeight r"

subsection \<open>Rotations\<close>

text \<open>
  \<^verbatim>\<open>x = y->left; y->left = x->right; x->right = y; updateHeight(y); updateHeight(x); return x;\<close>
\<close>

fun rotateRight :: "'a node \<Rightarrow> 'a node option" where
  "rotateRight (Node yv (Node xv xl xr xh) yr yh) =
     do { y' \<leftarrow> updateHeight (Node yv xr yr yh);
          updateHeight (Node xv xl y' xh) }"
| "rotateRight (Node yv Null yr yh) = None"
| "rotateRight Null = None"

text \<open>
  \<^verbatim>\<open>y = x->right; x->right = y->left; y->left = x; updateHeight(x); updateHeight(y); return y;\<close>
\<close>

fun rotateLeft :: "'a node \<Rightarrow> 'a node option" where
  "rotateLeft (Node xv xl (Node yv yl yr yh) xh) =
     do { x' \<leftarrow> updateHeight (Node xv xl yl xh);
          updateHeight (Node yv x' yr yh) }"
| "rotateLeft (Node xv xl Null xh) = None"
| "rotateLeft Null = None"

subsection \<open>Rebalancing one node\<close>

text \<open>
  \<^verbatim>\<open>updateHeight(node); int balanceFactor = getBalance(node);\<close> then the left-heavy
  branch, the right-heavy branch, or the node itself. \<^verbatim>\<open>node->left = rotateLeft(node->left)\<close>
  replaces the left child before \<^verbatim>\<open>rotateRight(node)\<close> runs, and symmetrically.
\<close>

definition balance :: "'a node \<Rightarrow> 'a node option" where
  "balance node =
     do { node' \<leftarrow> updateHeight node;
          case node' of
            Null \<Rightarrow> None
          | Node v l r h \<Rightarrow>
              (let balanceFactor = getBalance node' in
               if balanceFactor > 1 then
                 do { l' \<leftarrow> (if getBalance l < 0 then rotateLeft l else Some l);
                      rotateRight (Node v l' r h) }
               else if balanceFactor < - 1 then
                 do { r' \<leftarrow> (if getBalance r > 0 then rotateRight r else Some r);
                      rotateLeft (Node v l r' h) }
               else Some node') }"

section \<open>Structural operations\<close>

fun insert_node :: "'a::linorder node \<Rightarrow> 'a \<Rightarrow> 'a node option" where
  "insert_node Null val = Some (Node val Null Null 1)"
| "insert_node (Node v l r h) val =
     (if val < v then do { l' \<leftarrow> insert_node l val; balance (Node v l' r h) }
      else if v < val then do { r' \<leftarrow> insert_node r val; balance (Node v l r' h) }
      else Some (Node v l r h))"

text \<open>\<^verbatim>\<open>while (node && node->left) node = node->left; return node;\<close>\<close>

fun findMin :: "'a node \<Rightarrow> 'a node" where
  "findMin Null = Null"
| "findMin (Node v l r h) = (if l = Null then Node v l r h else findMin l)"

fun removeMin :: "'a node \<Rightarrow> 'a node option" where
  "removeMin Null = None"
| "removeMin (Node v l r h) =
     (if l = Null then Some r
      else do { l' \<leftarrow> removeMin l; balance (Node v l' r h) })"

text \<open>
  In the matching branch the node \<^verbatim>\<open>min\<close> found by \<^verbatim>\<open>findMin(right)\<close> is unlinked from
  \<^verbatim>\<open>right\<close> by \<^verbatim>\<open>removeMin\<close> (which never writes to it), then both its child pointers are
  overwritten; it keeps its value and, until \<^verbatim>\<open>balance\<close> recomputes it, its cached height.
\<close>

fun remove_node :: "'a::linorder node \<Rightarrow> 'a \<Rightarrow> 'a node option" where
  "remove_node Null val = Some Null"
| "remove_node (Node v l r h) val =
     (if val < v then do { l' \<leftarrow> remove_node l val; balance (Node v l' r h) }
      else if v < val then do { r' \<leftarrow> remove_node r val; balance (Node v l r' h) }
      else if r = Null then Some l
      else (case findMin r of
              Null \<Rightarrow> None
            | Node mv ml mr mh \<Rightarrow>
                do { r' \<leftarrow> removeMin r; balance (Node mv l r' mh) }))"

section \<open>Traversal and lookup\<close>

text \<open>\<^verbatim>\<open>inOrder(node, result)\<close> appends to the vector it is given.\<close>

fun inOrder :: "'a node \<Rightarrow> 'a list \<Rightarrow> 'a list" where
  "inOrder Null result = result"
| "inOrder (Node v l r h) result = inOrder r (inOrder l result @ [v])"

fun contains_node :: "'a::linorder node \<Rightarrow> 'a \<Rightarrow> bool" where
  "contains_node Null val = False"
| "contains_node (Node v l r h) val =
     (if val < v then contains_node l val
      else if v < val then contains_node r val
      else True)"

section \<open>The public interface\<close>

definition new_tree :: "'a AVLTree" where
  "new_tree = \<lparr> root = Null \<rparr>"

definition insert_pub :: "'a::linorder AVLTree \<Rightarrow> 'a \<Rightarrow> 'a AVLTree option" where
  "insert_pub t val = do { r \<leftarrow> insert_node (root t) val; Some (t\<lparr> root := r \<rparr>) }"

definition remove_pub :: "'a::linorder AVLTree \<Rightarrow> 'a \<Rightarrow> 'a AVLTree option" where
  "remove_pub t val = do { r \<leftarrow> remove_node (root t) val; Some (t\<lparr> root := r \<rparr>) }"

definition contains :: "'a::linorder AVLTree \<Rightarrow> 'a \<Rightarrow> bool" where
  "contains t val = contains_node (root t) val"

definition empty_tree :: "'a AVLTree \<Rightarrow> bool" where
  "empty_tree t = (root t = Null)"

definition inOrderTraversal :: "'a AVLTree \<Rightarrow> 'a list" where
  "inOrderTraversal t = inOrder (root t) []"

text \<open>A sequence of public calls; the run stops at the first failing call.\<close>

fun apply_call :: "'a::linorder AVLTree \<Rightarrow> 'a call \<Rightarrow> 'a AVLTree option" where
  "apply_call t (Insert v) = insert_pub t v"
| "apply_call t (Remove v) = remove_pub t v"

fun run_calls :: "'a::linorder AVLTree \<Rightarrow> 'a call list \<Rightarrow> 'a AVLTree option" where
  "run_calls t [] = Some t"
| "run_calls t (c # cs) = do { t' \<leftarrow> apply_call t c; run_calls t' cs }"

section \<open>Invariants of the data model\<close>

text \<open>The values of a subtree from left to right, and its number of nodes.\<close>

fun inorder :: "'a node \<Rightarrow> 'a list" where
  "inorder Null = []"
| "inorder (Node v l r h) = inorder l @ v # inorder r"

fun nodes :: "'a node \<Rightarrow> nat" where
  "nodes Null = 0"
| "nodes (Node v l r h) = nodes l + nodes r + 1"

text \<open>The height of the shape, whatever the cached fields say.\<close>

fun depth :: "'a node \<Rightarrow> int" where
  "depth Null = 0"
| "depth (Node v l r h) = 1 + max (depth l) (depth r)"

text \<open>
  AVL balance and height correctness at every node, as the data model states them: over the
  cached heights, an absent child counting 0.
\<close>

fun avl :: "'a node \<Rightarrow> bool" where
  "avl Null = True"
| "avl (Node v l r h) =
     (avl l \<and> avl r \<and> \<bar>getHeight l - getHeight r\<bar> \<le> 1
      \<and> h = 1 + max (getHeight l) (getHeight r))"

definition bst :: "'a::linorder node \<Rightarrow> bool" where
  "bst n = sorted_wrt (<) (inorder n)"

definition invar :: "'a::linorder AVLTree \<Rightarrow> bool" where
  "invar t = (avl (root t) \<and> bst (root t))"

section \<open>Auxiliary definitions for the height bound\<close>

text \<open>
  The Fibonacci numbers: an AVL tree of height \<open>h\<close> has at least \<open>fib (h + 2) - 1\<close>
  nodes.
\<close>

fun fib :: "nat \<Rightarrow> nat" where
  "fib 0 = 0"
| "fib (Suc 0) = 1"
| "fib (Suc (Suc n)) = fib n + fib (Suc n)"

section \<open>Basic facts about the invariants\<close>

lemma inOrder_inorder: "inOrder n res = res @ inorder n"
  by (induction n arbitrary: res) auto

lemma avl_height_nonneg: "avl n \<Longrightarrow> 0 \<le> getHeight n"
  by (induction n) auto

lemma avl_height_pos: "avl (Node v l r h) \<Longrightarrow> 1 \<le> h"
  using avl_height_nonneg[of l] avl_height_nonneg[of r] by simp

lemma avl_height_Null: "avl n \<Longrightarrow> getHeight n \<le> 0 \<Longrightarrow> n = Null"
  using avl_height_pos by (cases n) fastforce+

lemma avl_depth: "avl n \<Longrightarrow> getHeight n = depth n"
  by (induction n) auto

lemma balance_balanced:
  "\<bar>getHeight l - getHeight r\<bar> \<le> 1 \<Longrightarrow>
   balance (Node v l r h) = Some (Node v l r (1 + max (getHeight l) (getHeight r)))"
  by (auto simp: balance_def Let_def)

lemma balance_left:
  assumes "avl l" "avl r" "getHeight l = getHeight r + 2"
  shows "\<exists>n'. balance (Node v l r h) = Some n' \<and> avl n'
           \<and> inorder n' = inorder l @ v # inorder r
           \<and> nodes n' = nodes l + nodes r + 1
           \<and> getHeight n' \<in> {getHeight r + 2, getHeight r + 3}"
proof -
  from assms avl_height_nonneg[of r] obtain lv ll lr lh where l: "l = Node lv ll lr lh"
    by (cases l) auto
  show ?thesis
  proof (cases "getHeight ll < getHeight lr")
    case False
    with assms l show ?thesis
      by (auto simp: balance_def Let_def)
  next
    case True
    with assms l avl_height_nonneg[of ll] obtain mv ml mr mh where m: "lr = Node mv ml mr mh"
      by (cases lr) auto
    with True assms l show ?thesis
      by (auto simp: balance_def Let_def)
  qed
qed

lemma balance_right:
  assumes "avl l" "avl r" "getHeight r = getHeight l + 2"
  shows "\<exists>n'. balance (Node v l r h) = Some n' \<and> avl n'
           \<and> inorder n' = inorder l @ v # inorder r
           \<and> nodes n' = nodes l + nodes r + 1
           \<and> getHeight n' \<in> {getHeight l + 2, getHeight l + 3}"
proof -
  from assms avl_height_nonneg[of l] obtain rv rl rr rh where r: "r = Node rv rl rr rh"
    by (cases r) auto
  show ?thesis
  proof (cases "getHeight rl > getHeight rr")
    case False
    with assms r show ?thesis
      by (auto simp: balance_def Let_def)
  next
    case True
    with assms r avl_height_nonneg[of rr] obtain mv ml mr mh where m: "rl = Node mv ml mr mh"
      by (cases rl) auto
    with True assms r show ?thesis
      by (auto simp: balance_def Let_def)
  qed
qed


lemma balance_spec:
  assumes "avl l" "avl r" "\<bar>getHeight l - getHeight r\<bar> \<le> 2"
  shows "\<exists>n'. balance (Node v l r h) = Some n' \<and> avl n'
           \<and> inorder n' = inorder l @ v # inorder r
           \<and> (\<bar>getHeight l - getHeight r\<bar> \<le> 1 \<longrightarrow>
                 n' = Node v l r (1 + max (getHeight l) (getHeight r)))
           \<and> (getHeight l = getHeight r + 2 \<longrightarrow> getHeight n' \<in> {getHeight r + 2, getHeight r + 3})
           \<and> (getHeight r = getHeight l + 2 \<longrightarrow> getHeight n' \<in> {getHeight l + 2, getHeight l + 3})"
proof -
  consider (bal) "\<bar>getHeight l - getHeight r\<bar> \<le> 1"
    | (lft) "getHeight l = getHeight r + 2" | (rgt) "getHeight r = getHeight l + 2"
    using assms(3) by linarith
  then show ?thesis
  proof cases
    case bal
    with assms(1,2) show ?thesis by (simp add: balance_balanced)
  next
    case lft
    from balance_left[OF assms(1,2) lft, of v h] lft show ?thesis by auto
  next
    case rgt
    from balance_right[OF assms(1,2) rgt, of v h] rgt show ?thesis by auto
  qed
qed

lemma insert_node_spec:
  "avl n \<Longrightarrow>
   \<exists>n'. insert_node n x = Some n' \<and> avl n'
      \<and> getHeight n' \<in> {getHeight n, getHeight n + 1}
      \<and> set (inorder n') = insert x (set (inorder n))
      \<and> (bst n \<longrightarrow> bst n')"
proof (induction n)
  case Null
  show ?case by (simp add: bst_def)
next
  case (Node v l r h)
  from Node.prems have al: "avl l" and ar: "avl r"
    and bal: "\<bar>getHeight l - getHeight r\<bar> \<le> 1"
    and h: "h = 1 + max (getHeight l) (getHeight r)" by simp_all
  consider (lt) "x < v" | (gt) "v < x" | (eq) "x = v" by fastforce
  then show ?case
  proof cases
    case lt
    from Node.IH(1)[OF al] obtain l' where l': "insert_node l x = Some l'" "avl l'"
      "getHeight l' \<in> {getHeight l, getHeight l + 1}"
      "set (inorder l') = insert x (set (inorder l))" "bst l \<longrightarrow> bst l'" by blast
    from l'(3) bal have d: "\<bar>getHeight l' - getHeight r\<bar> \<le> 2" by auto
    from balance_spec[OF l'(2) ar d, of v h] obtain n' where n':
      "balance (Node v l' r h) = Some n'" "avl n'" "inorder n' = inorder l' @ v # inorder r"
      "\<bar>getHeight l' - getHeight r\<bar> \<le> 1 \<longrightarrow> n' = Node v l' r (1 + max (getHeight l') (getHeight r))"
      "getHeight l' = getHeight r + 2 \<longrightarrow> getHeight n' \<in> {getHeight r + 2, getHeight r + 3}"
      by blast
    have ins: "insert_node (Node v l r h) x = Some n'" using lt l'(1) n'(1) by simp
    have ht: "getHeight n' \<in> {getHeight (Node v l r h), getHeight (Node v l r h) + 1}"
    proof (cases "\<bar>getHeight l' - getHeight r\<bar> \<le> 1")
      case True
      with n'(4) l'(3) h show ?thesis by auto
    next
      case False
      with d l'(3) bal have "getHeight l' = getHeight r + 2" by auto
      with n'(5) l'(3) bal h show ?thesis by auto
    qed
    have st: "set (inorder n') = insert x (set (inorder (Node v l r h)))"
      using n'(3) l'(4) by auto
    have bs: "bst (Node v l r h) \<longrightarrow> bst n'"
      using n'(3) l'(4,5) lt by (auto simp: bst_def sorted_wrt_append)
    from ins n'(2) ht st bs show ?thesis by blast
  next
    case gt
    from Node.IH(2)[OF ar] obtain r' where r': "insert_node r x = Some r'" "avl r'"
      "getHeight r' \<in> {getHeight r, getHeight r + 1}"
      "set (inorder r') = insert x (set (inorder r))" "bst r \<longrightarrow> bst r'" by blast
    from r'(3) bal have d: "\<bar>getHeight l - getHeight r'\<bar> \<le> 2" by auto
    from balance_spec[OF al r'(2) d, of v h] obtain n' where n':
      "balance (Node v l r' h) = Some n'" "avl n'" "inorder n' = inorder l @ v # inorder r'"
      "\<bar>getHeight l - getHeight r'\<bar> \<le> 1 \<longrightarrow> n' = Node v l r' (1 + max (getHeight l) (getHeight r'))"
      "getHeight r' = getHeight l + 2 \<longrightarrow> getHeight n' \<in> {getHeight l + 2, getHeight l + 3}"
      by blast
    have ins: "insert_node (Node v l r h) x = Some n'" using gt r'(1) n'(1) less_asym[of v x] by auto
    have ht: "getHeight n' \<in> {getHeight (Node v l r h), getHeight (Node v l r h) + 1}"
    proof (cases "\<bar>getHeight l - getHeight r'\<bar> \<le> 1")
      case True
      with n'(4) r'(3) h show ?thesis by auto
    next
      case False
      with d r'(3) bal have "getHeight r' = getHeight l + 2" by auto
      with n'(5) r'(3) bal h show ?thesis by auto
    qed
    have st: "set (inorder n') = insert x (set (inorder (Node v l r h)))"
      using n'(3) r'(4) by auto
    have bs: "bst (Node v l r h) \<longrightarrow> bst n'"
      using n'(3) r'(4,5) gt by (auto simp: bst_def sorted_wrt_append)
    from ins n'(2) ht st bs show ?thesis by blast
  next
    case eq
    with Node.prems show ?thesis by auto
  qed
qed


lemma removeMin_spec:
  "avl n \<Longrightarrow> n \<noteq> Null \<Longrightarrow>
   \<exists>n' mv mr mh. findMin n = Node mv Null mr mh \<and> removeMin n = Some n' \<and> avl n'
      \<and> getHeight n' \<in> {getHeight n - 1, getHeight n}
      \<and> inorder n = mv # inorder n'"
proof (induction n)
  case Null
  then show ?case by simp
next
  case (Node v l r h)
  from Node.prems have al: "avl l" and ar: "avl r"
    and bal: "\<bar>getHeight l - getHeight r\<bar> \<le> 1"
    and h: "h = 1 + max (getHeight l) (getHeight r)" by simp_all
  show ?case
  proof (cases "l = Null")
    case True
    with ar h avl_height_nonneg[OF ar] show ?thesis by auto
  next
    case False
    from Node.IH(1)[OF al False] obtain l' mv mr mh where l':
      "findMin l = Node mv Null mr mh" "removeMin l = Some l'" "avl l'"
      "getHeight l' \<in> {getHeight l - 1, getHeight l}" "inorder l = mv # inorder l'" by blast
    from l'(4) bal have d: "\<bar>getHeight l' - getHeight r\<bar> \<le> 2" by auto
    from balance_spec[OF l'(3) ar d, of v h] obtain n' where n':
      "balance (Node v l' r h) = Some n'" "avl n'" "inorder n' = inorder l' @ v # inorder r"
      "\<bar>getHeight l' - getHeight r\<bar> \<le> 1 \<longrightarrow> n' = Node v l' r (1 + max (getHeight l') (getHeight r))"
      "getHeight r = getHeight l' + 2 \<longrightarrow> getHeight n' \<in> {getHeight l' + 2, getHeight l' + 3}"
      by blast
    have fm: "findMin (Node v l r h) = Node mv Null mr mh" using False l'(1) by simp
    have rm: "removeMin (Node v l r h) = Some n'" using False l'(2) n'(1) by simp
    have ht: "getHeight n' \<in> {getHeight (Node v l r h) - 1, getHeight (Node v l r h)}"
    proof (cases "\<bar>getHeight l' - getHeight r\<bar> \<le> 1")
      case True
      with n'(4) l'(4) h show ?thesis by auto
    next
      case False
      with d l'(4) bal have "getHeight r = getHeight l' + 2" by auto
      with n'(5) l'(4) bal h show ?thesis by auto
    qed
    have io: "inorder (Node v l r h) = mv # inorder n'" using n'(3) l'(5) by simp
    from fm rm n'(2) ht io show ?thesis by blast
  qed
qed

lemma remove_node_spec:
  "avl n \<Longrightarrow>
   \<exists>n'. remove_node n x = Some n' \<and> avl n'
      \<and> getHeight n' \<in> {getHeight n - 1, getHeight n}
      \<and> (bst n \<longrightarrow> inorder n' = removeAll x (inorder n))"
proof (induction n)
  case Null
  show ?case by simp
next
  case (Node v l r h)
  from Node.prems have al: "avl l" and ar: "avl r"
    and bal: "\<bar>getHeight l - getHeight r\<bar> \<le> 1"
    and h: "h = 1 + max (getHeight l) (getHeight r)" by simp_all
  consider (lt) "x < v" | (gt) "v < x" | (eq) "x = v" by fastforce
  then show ?case
  proof cases
    case lt
    from Node.IH(1)[OF al] obtain l' where l': "remove_node l x = Some l'" "avl l'"
      "getHeight l' \<in> {getHeight l - 1, getHeight l}"
      "bst l \<longrightarrow> inorder l' = removeAll x (inorder l)" by blast
    from l'(3) bal have d: "\<bar>getHeight l' - getHeight r\<bar> \<le> 2" by auto
    from balance_spec[OF l'(2) ar d, of v h] obtain n' where n':
      "balance (Node v l' r h) = Some n'" "avl n'" "inorder n' = inorder l' @ v # inorder r"
      "\<bar>getHeight l' - getHeight r\<bar> \<le> 1 \<longrightarrow> n' = Node v l' r (1 + max (getHeight l') (getHeight r))"
      "getHeight r = getHeight l' + 2 \<longrightarrow> getHeight n' \<in> {getHeight l' + 2, getHeight l' + 3}"
      by blast
    have rm: "remove_node (Node v l r h) x = Some n'" using lt l'(1) n'(1) by simp
    have ht: "getHeight n' \<in> {getHeight (Node v l r h) - 1, getHeight (Node v l r h)}"
    proof (cases "\<bar>getHeight l' - getHeight r\<bar> \<le> 1")
      case True
      with n'(4) l'(3) h show ?thesis by auto
    next
      case False
      with d l'(3) bal have "getHeight r = getHeight l' + 2" by auto
      with n'(5) l'(3) bal h show ?thesis by auto
    qed
    have io: "bst (Node v l r h) \<longrightarrow> inorder n' = removeAll x (inorder (Node v l r h))"
    proof
      assume "bst (Node v l r h)"
      then have "bst l" "x \<notin> set (inorder r)" "x \<noteq> v"
        using lt by (auto simp: bst_def sorted_wrt_append)
      with n'(3) l'(4) show "inorder n' = removeAll x (inorder (Node v l r h))" by simp
    qed
    from rm n'(2) ht io show ?thesis by blast
  next
    case gt
    from Node.IH(2)[OF ar] obtain r' where r': "remove_node r x = Some r'" "avl r'"
      "getHeight r' \<in> {getHeight r - 1, getHeight r}"
      "bst r \<longrightarrow> inorder r' = removeAll x (inorder r)" by blast
    from r'(3) bal have d: "\<bar>getHeight l - getHeight r'\<bar> \<le> 2" by auto
    from balance_spec[OF al r'(2) d, of v h] obtain n' where n':
      "balance (Node v l r' h) = Some n'" "avl n'" "inorder n' = inorder l @ v # inorder r'"
      "\<bar>getHeight l - getHeight r'\<bar> \<le> 1 \<longrightarrow> n' = Node v l r' (1 + max (getHeight l) (getHeight r'))"
      "getHeight l = getHeight r' + 2 \<longrightarrow> getHeight n' \<in> {getHeight r' + 2, getHeight r' + 3}"
      by blast
    have rm: "remove_node (Node v l r h) x = Some n'"
      using gt r'(1) n'(1) less_asym[of v x] by auto
    have ht: "getHeight n' \<in> {getHeight (Node v l r h) - 1, getHeight (Node v l r h)}"
    proof (cases "\<bar>getHeight l - getHeight r'\<bar> \<le> 1")
      case True
      with n'(4) r'(3) h show ?thesis by auto
    next
      case False
      with d r'(3) bal have "getHeight l = getHeight r' + 2" by auto
      with n'(5) r'(3) bal h show ?thesis by auto
    qed
    have io: "bst (Node v l r h) \<longrightarrow> inorder n' = removeAll x (inorder (Node v l r h))"
    proof
      assume "bst (Node v l r h)"
      then have "bst r" "x \<notin> set (inorder l)" "x \<noteq> v"
        using gt by (auto simp: bst_def sorted_wrt_append)
      with n'(3) r'(4) show "inorder n' = removeAll x (inorder (Node v l r h))" by simp
    qed
    from rm n'(2) ht io show ?thesis by blast
  next
    case eq
    show ?thesis
    proof (cases "r = Null")
      case True
      have rm: "remove_node (Node v l r h) x = Some l" using eq True by simp
      have ht: "getHeight l \<in> {getHeight (Node v l r h) - 1, getHeight (Node v l r h)}"
        using True h avl_height_nonneg[OF al] by auto
      have io: "bst (Node v l r h) \<longrightarrow> inorder l = removeAll x (inorder (Node v l r h))"
      proof
        assume "bst (Node v l r h)"
        then have "x \<notin> set (inorder l)"
          using eq by (auto simp: bst_def sorted_wrt_append)
        with True eq show "inorder l = removeAll x (inorder (Node v l r h))" by simp
      qed
      from rm al ht io show ?thesis by blast
    next
      case False
      from removeMin_spec[OF ar False] obtain r' mv mr mh where r':
        "findMin r = Node mv Null mr mh" "removeMin r = Some r'" "avl r'"
        "getHeight r' \<in> {getHeight r - 1, getHeight r}" "inorder r = mv # inorder r'" by blast
      from r'(4) bal have d: "\<bar>getHeight l - getHeight r'\<bar> \<le> 2" by auto
      from balance_spec[OF al r'(3) d, of mv mh] obtain n' where n':
        "balance (Node mv l r' mh) = Some n'" "avl n'" "inorder n' = inorder l @ mv # inorder r'"
        "\<bar>getHeight l - getHeight r'\<bar> \<le> 1 \<longrightarrow> n' = Node mv l r' (1 + max (getHeight l) (getHeight r'))"
        "getHeight l = getHeight r' + 2 \<longrightarrow> getHeight n' \<in> {getHeight r' + 2, getHeight r' + 3}"
        by blast
      have rm: "remove_node (Node v l r h) x = Some n'"
        using eq False r'(1,2) n'(1) by simp
      have ht: "getHeight n' \<in> {getHeight (Node v l r h) - 1, getHeight (Node v l r h)}"
      proof (cases "\<bar>getHeight l - getHeight r'\<bar> \<le> 1")
        case True
        with n'(4) r'(4) h show ?thesis by auto
      next
        case False
        with d r'(4) bal have "getHeight l = getHeight r' + 2" by auto
        with n'(5) r'(4) bal h show ?thesis by auto
      qed
      have io: "bst (Node v l r h) \<longrightarrow> inorder n' = removeAll x (inorder (Node v l r h))"
      proof
        assume "bst (Node v l r h)"
        then have "x \<notin> set (inorder l)" "x \<notin> set (inorder r)"
          using eq by (auto simp: bst_def sorted_wrt_append)
        with n'(3) r'(5) eq show "inorder n' = removeAll x (inorder (Node v l r h))" by simp
      qed
      from rm n'(2) ht io show ?thesis by blast
    qed
  qed
qed


section \<open>The public operations keep the invariants\<close>

lemma contains_node_iff: "bst n \<Longrightarrow> contains_node n x = (x \<in> set (inorder n))"
  by (induction n) (auto simp: bst_def sorted_wrt_append)

lemma avl_rebalance_id: "avl (Node v l r h) \<Longrightarrow> balance (Node v l r h') = Some (Node v l r h)"
  by (simp add: balance_balanced)

lemma insert_node_present:
  "avl n \<Longrightarrow> contains_node n x \<Longrightarrow> insert_node n x = Some n"
proof (induction n)
  case Null
  then show ?case by simp
next
  case (Node v l r h)
  from Node.prems(1) have "avl l" "avl r" by simp_all
  with Node show ?case
    using avl_rebalance_id[OF Node.prems(1)] by (auto split: if_splits)
qed

lemma remove_node_absent:
  "avl n \<Longrightarrow> \<not> contains_node n x \<Longrightarrow> remove_node n x = Some n"
proof (induction n)
  case Null
  then show ?case by simp
next
  case (Node v l r h)
  from Node.prems(1) have "avl l" "avl r" by simp_all
  with Node show ?case
    using avl_rebalance_id[OF Node.prems(1)] by (auto split: if_splits)
qed

lemma invar_new_tree: "invar new_tree"
  by (simp add: invar_def new_tree_def bst_def)

lemma bst_removeAll: "bst n \<Longrightarrow> inorder n' = removeAll x (inorder n) \<Longrightarrow> bst n'"
  by (simp add: bst_def removeAll_filter_not_eq sorted_wrt_filter)

lemma insert_pub_invar:
  assumes "invar t"
  shows "\<exists>t'. insert_pub t x = Some t' \<and> invar t'
           \<and> set (inOrderTraversal t') = insert x (set (inOrderTraversal t))"
proof -
  from assms have a: "avl (root t)" and b: "bst (root t)" by (simp_all add: invar_def)
  from insert_node_spec[OF a, of x] b obtain n' where
    "insert_node (root t) x = Some n'" "avl n'" "bst n'"
    "set (inorder n') = insert x (set (inorder (root t)))" by blast
  then show ?thesis
    by (simp add: insert_pub_def invar_def inOrderTraversal_def inOrder_inorder)
qed

lemma remove_pub_invar:
  assumes "invar t"
  shows "\<exists>t'. remove_pub t x = Some t' \<and> invar t'
           \<and> inOrderTraversal t' = removeAll x (inOrderTraversal t)"
proof -
  from assms have a: "avl (root t)" and b: "bst (root t)" by (simp_all add: invar_def)
  from remove_node_spec[OF a, of x] b obtain n' where n':
    "remove_node (root t) x = Some n'" "avl n'"
    "inorder n' = removeAll x (inorder (root t))" by blast
  from bst_removeAll[OF b n'(3)] have "bst n'" .
  with n' show ?thesis
    by (simp add: remove_pub_def invar_def inOrderTraversal_def inOrder_inorder)
qed

lemma apply_call_invar: "invar t \<Longrightarrow> \<exists>t'. apply_call t c = Some t' \<and> invar t'"
  using insert_pub_invar remove_pub_invar by (cases c) fastforce+

lemma run_calls_invar: "invar t \<Longrightarrow> \<exists>t'. run_calls t cs = Some t' \<and> invar t'"
proof (induction cs arbitrary: t)
  case Nil
  then show ?case by simp
next
  case (Cons c cs)
  from apply_call_invar[OF Cons.prems, of c] obtain t1 where
    t1: "apply_call t c = Some t1" "invar t1" by blast
  from Cons.IH[OF t1(2)] t1(1) show ?case by simp
qed

lemma run_inserts_set:
  "invar t \<Longrightarrow> \<exists>t'. run_calls t (map Insert xs) = Some t' \<and> invar t'
      \<and> set (inOrderTraversal t') = set (inOrderTraversal t) \<union> set xs"
proof (induction xs arbitrary: t)
  case Nil
  then show ?case by simp
next
  case (Cons x xs)
  from insert_pub_invar[OF Cons.prems, of x] obtain t1 where
    t1: "insert_pub t x = Some t1" "invar t1"
    "set (inOrderTraversal t1) = insert x (set (inOrderTraversal t))" by blast
  from Cons.IH[OF t1(2)] t1(1,3) show ?case by auto
qed

lemma invar_sorted: "invar t \<Longrightarrow> sorted_wrt (<) (inOrderTraversal t)"
  by (simp add: invar_def bst_def inOrderTraversal_def inOrder_inorder)

lemma strict_sorted_list_of_set:
  fixes xs :: "'a::linorder list"
  shows "sorted_wrt (<) xs \<Longrightarrow> sorted_list_of_set (set xs) = xs"
  by (simp add: sorted_list_of_set.idem_if_sorted_distinct strict_sorted_iff)

lemma depth_nonneg: "0 \<le> depth n"
  by (induction n) auto

lemmas run_simps = new_tree_def insert_pub_def remove_pub_def balance_def Let_def
  inOrderTraversal_def contains_def empty_tree_def

section \<open>Safety of the child accesses\<close>

lemma avl_right_heavy: "avl n \<Longrightarrow> getBalance n < 0 \<Longrightarrow> right n \<noteq> Null"
  using avl_height_nonneg[of "left n"] by (cases n) auto

lemma avl_left_heavy: "avl n \<Longrightarrow> 0 < getBalance n \<Longrightarrow> left n \<noteq> Null"
  using avl_height_nonneg[of "right n"] by (cases n) auto

lemma balance_safe:
  assumes "avl l" and "avl r"
  shows "(1 < getHeight l - getHeight r \<longrightarrow> l \<noteq> Null \<and> (getBalance l < 0 \<longrightarrow> right l \<noteq> Null))
       \<and> (getHeight l - getHeight r < - 1 \<longrightarrow> r \<noteq> Null \<and> (0 < getBalance r \<longrightarrow> left r \<noteq> Null))"
proof -
  have "1 < getHeight l - getHeight r \<longrightarrow> l \<noteq> Null"
    using avl_height_nonneg[OF assms(2)] by auto
  moreover have "getHeight l - getHeight r < - 1 \<longrightarrow> r \<noteq> Null"
    using avl_height_nonneg[OF assms(1)] by auto
  ultimately show ?thesis
    using avl_right_heavy[OF assms(1)] avl_left_heavy[OF assms(2)] by blast
qed

section \<open>Size against height\<close>

lemma fib_Suc_mono: "fib n \<le> fib (Suc n)"
  by (induction n rule: fib.induct) auto

lemma fib_mono: "m \<le> n \<Longrightarrow> fib m \<le> fib n"
  by (induction n) (auto simp: le_Suc_eq intro: order_trans[OF _ fib_Suc_mono])

lemma nodes_length: "nodes n = length (inorder n)"
  by (induction n) auto

lemma avl_fib_size: "avl n \<Longrightarrow> fib (nat (getHeight n) + 2) \<le> nodes n + 1"
proof (induction n)
  case Null
  show ?case by (simp add: numeral_2_eq_2)
next
  case (Node v l r h)
  from Node.prems have al: "avl l" and ar: "avl r"
    and bal: "\<bar>getHeight l - getHeight r\<bar> \<le> 1"
    and h: "h = 1 + max (getHeight l) (getHeight r)" by simp_all
  note nl = avl_height_nonneg[OF al] and nr = avl_height_nonneg[OF ar]
  define a where "a = nat (getHeight l)"
  define b where "b = nat (getHeight r)"
  from nl nr bal have ab: "a \<le> b + 1" "b \<le> a + 1" by (simp_all add: a_def b_def)
  from Node.IH(1)[OF al] Node.IH(2)[OF ar]
  have il: "fib (a + 2) \<le> nodes l + 1" and ir: "fib (b + 2) \<le> nodes r + 1"
    by (simp_all add: a_def b_def)
  from h nl nr have hh: "nat h = 1 + max a b" by (simp add: a_def b_def)
  have "fib (max a b + 3) \<le> fib (a + 2) + fib (b + 2)"
  proof (cases "a \<le> b")
    case True
    then have m: "max a b = b" by simp
    have "fib (b + 3) = fib (b + 1) + fib (b + 2)" by (simp add: numeral_3_eq_3 numeral_2_eq_2)
    moreover have "fib (b + 1) \<le> fib (a + 2)" using ab by (intro fib_mono) simp
    ultimately show ?thesis using m by simp
  next
    case False
    then have m: "max a b = a" by simp
    have "fib (a + 3) = fib (a + 1) + fib (a + 2)" by (simp add: numeral_3_eq_3 numeral_2_eq_2)
    moreover have "fib (a + 1) \<le> fib (b + 2)" using ab by (intro fib_mono) simp
    ultimately show ?thesis using m by simp
  qed
  with il ir have bound: "fib (max a b + 3) \<le> nodes l + nodes r + 2" by linarith
  have e: "nat (getHeight (Node v l r h)) + 2 = max a b + 3" using hh by simp
  have n2: "nodes (Node v l r h) + 1 = nodes l + nodes r + 2" by simp
  show ?case unfolding e n2 by (rule bound)
qed

lemma inserts_size:
  assumes "distinct xs"
  shows "\<exists>t. run_calls new_tree (map Insert xs) = Some t \<and> avl (root t)
           \<and> nodes (root t) = length xs"
proof -
  from run_inserts_set[OF invar_new_tree, of xs] obtain t where
    t: "run_calls new_tree (map Insert xs) = Some t" "invar t"
    "set (inOrderTraversal t) = set (inOrderTraversal new_tree) \<union> set xs" by blast
  from t(3) have s: "set (inorder (root t)) = set xs"
    by (simp add: inOrderTraversal_def new_tree_def inOrder_inorder)
  from t(2) have "distinct (inorder (root t))"
    by (simp add: invar_def bst_def strict_sorted_iff)
  then have "length (inorder (root t)) = card (set xs)"
    using s by (metis distinct_card)
  with assms have "nodes (root t) = length xs"
    by (simp add: nodes_length distinct_card)
  with t(1,2) show ?thesis by (auto simp: invar_def)
qed

subsection \<open>The logarithmic bound for trees of at most \<open>2 ^ 512\<close> nodes\<close>

lemma fib_lower_aux:
  "(114/100) * (161803/100000 :: real) ^ Suc h \<le> real (fib (Suc (Suc (Suc h))))
   \<and> (114/100) * (161803/100000 :: real) ^ Suc (Suc h) \<le> real (fib (Suc (Suc (Suc (Suc h)))))"
proof (induction h)
  case 0
  show ?case by (simp add: power2_eq_square)
next
  case (Suc h)
  let ?p = "161803/100000 :: real"
  have p2: "?p * ?p \<le> 1 + ?p" by simp
  have "(114/100) * ?p ^ Suc (Suc (Suc h)) = ((114/100) * ?p ^ Suc h) * (?p * ?p)"
    by simp
  also have "\<dots> \<le> ((114/100) * ?p ^ Suc h) * (1 + ?p)"
    by (intro mult_left_mono p2) simp
  also have "\<dots> = (114/100) * ?p ^ Suc h + (114/100) * ?p ^ Suc (Suc h)"
    by (simp add: algebra_simps)
  also have "\<dots> \<le> real (fib (Suc (Suc (Suc h)))) + real (fib (Suc (Suc (Suc (Suc h)))))"
    using Suc.IH by linarith
  also have "\<dots> = real (fib (Suc (Suc (Suc (Suc (Suc h))))))"
    by simp
  finally have "(114/100) * ?p ^ Suc (Suc (Suc h)) \<le> real (fib (Suc (Suc (Suc (Suc (Suc h))))))" .
  with Suc.IH show ?case by blast
qed

lemma fib_lower:
  assumes "1 \<le> h"
  shows "(114/100) * (161803/100000 :: real) ^ h \<le> real (fib (h + 2))"
proof -
  from assms obtain k where k: "h = Suc k" by (cases h) auto
  have "h + 2 = Suc (Suc (Suc k))" using k by simp
  with fib_lower_aux[of k] k show ?thesis by simp
qed

lemma pow_upper:
  assumes "h \<le> 768"
  shows "(20003/20000 :: real) ^ h \<le> 114/100"
proof -
  let ?A = "(20003/20000 :: real) ^ 768"
  let ?B = "(19997/20000 :: real) ^ 768"
  have hA: "(20003/20000 :: real) ^ h \<le> ?A"
    using assms by (intro power_increasing) simp_all
  have "?A * ?B = ((20003/20000) * (19997/20000 :: real)) ^ 768"
    by (simp only: power_mult_distrib)
  also have "\<dots> \<le> 1" by (intro power_le_one) simp_all
  finally have AB: "?A * ?B \<le> 1" .
  have "1 + real 768 * (- 3/20000) \<le> (1 + (- 3/20000 :: real)) ^ 768"
    by (intro Bernoulli_inequality) simp
  then have B: "(8848/10000 :: real) \<le> ?B" by simp
  have "?A * (8848/10000) \<le> ?A * ?B"
    by (intro mult_left_mono B) simp
  with AB have "?A * (8848/10000) \<le> 1" by linarith
  then have "?A \<le> 114/100" by simp
  with hA show ?thesis by linarith
qed

lemma r_ge: "(2::real) ^ 25 \<le> (161827/100000) ^ 36"
  by (simp add: power_divide)

lemma height_log_bound:
  assumes f: "fib (h + 2) \<le> n + 1" and hb: "h \<le> 768"
  shows "real h \<le> 1.44 * log 2 (real n + 2)"
proof (cases "h = 0")
  case True
  have "0 \<le> log 2 (real n + 2)" by (intro zero_le_log_cancel_iff[THEN iffD2]) simp_all
  with True show ?thesis by simp
next
  case False
  let ?r = "161827/100000 :: real" and ?p = "161803/100000 :: real"
  have "?r ^ h \<le> (?p * (20003/20000)) ^ h"
    by (intro power_mono) simp_all
  also have "\<dots> = ?p ^ h * (20003/20000) ^ h" by (simp only: power_mult_distrib)
  also have "\<dots> \<le> ?p ^ h * (114/100)"
    by (intro mult_left_mono pow_upper[OF hb]) simp
  also have "\<dots> \<le> real (fib (h + 2))"
    using fib_lower[of h] False by (simp add: mult.commute)
  also have "\<dots> \<le> real n + 2" using f by linarith
  finally have rh: "?r ^ h \<le> real n + 2" .
  have "(2::real) ^ (25 * h) = (2 ^ 25) ^ h" by (simp only: power_mult)
  also have "\<dots> \<le> (?r ^ 36) ^ h" by (intro power_mono r_ge) simp
  also have "\<dots> = (?r ^ h) ^ 36" by (simp only: power_mult[symmetric] mult.commute)
  also have "\<dots> \<le> (real n + 2) ^ 36" by (intro power_mono rh) simp
  finally have "(2::real) ^ (25 * h) \<le> (real n + 2) ^ 36" .
  then have "log 2 (2 ^ (25 * h)) \<le> log 2 ((real n + 2) ^ 36)"
    by (subst log_le_cancel_iff) simp_all
  moreover have "log 2 (2 ^ (25 * h)) = real (25 * h)"
    by (simp only: log_nat_power[of 2 2 "25 * h"]) simp
  moreover have "log 2 ((real n + 2) ^ 36) = 36 * log 2 (real n + 2)"
    by (subst log_nat_power) simp_all
  ultimately have "25 * real h \<le> 36 * log 2 (real n + 2)" by simp
  then show ?thesis by simp
qed

lemma height_small:
  assumes f: "fib (h + 2) \<le> n + 1" and n: "n < 2 ^ 512"
  shows "h < 768"
proof (rule ccontr)
  assume "\<not> h < 768"
  then have "fib (768 + 2) \<le> fib (h + 2)" by (intro fib_mono) simp
  with f have "real (fib (768 + 2)) \<le> real n + 1" by linarith
  moreover have "(114/100) * (161803/100000 :: real) ^ 768 \<le> real (fib (768 + 2))"
    by (rule fib_lower) simp
  moreover have "(2::real) ^ 512 \<le> (161803/100000) ^ 768"
  proof -
    have "(2::real) ^ 512 = (2 ^ 2) ^ 256" by (simp only: power_mult[symmetric]) simp
    also have "\<dots> \<le> ((161803/100000) ^ 3) ^ 256"
      by (intro power_mono) (simp_all add: power_divide)
    also have "\<dots> = (161803/100000) ^ 768" by (simp only: power_mult[symmetric]) simp
    finally show ?thesis .
  qed
  moreover have "real n + 1 \<le> 2 ^ 512"
  proof -
    from n have "n + 1 \<le> 2 ^ 512" by simp
    then have "real (n + 1) \<le> real (2 ^ 512)" by (simp only: of_nat_le_iff)
    then show ?thesis by simp
  qed
  moreover have "(0::real) < 2 ^ 512" by simp
  ultimately show False by linarith
qed

section \<open>The claims\<close>

text \<open>
  Claim C1. Every finite sequence of \<^verbatim>\<open>insert\<close> and \<^verbatim>\<open>remove\<close> calls on an initially
  empty tree runs to completion, and in the tree it leaves every node satisfies
  \<open>\<bar>height(left) - height(right)\<bar> \<le> 1\<close>, every cached height is
  \<open>1 + max (height(left)) (height(right))\<close> with an absent child counting 0 (both are
  \<open>avl\<close>), and the in-order traversal is strictly increasing.
\<close>
theorem invariant_preservation:
  "\<exists>t. run_calls new_tree cs = Some t \<and> avl (root t)
      \<and> sorted_wrt (<) (inOrderTraversal t)"
  using run_calls_invar[OF invar_new_tree, of cs] invar_sorted
  by (auto simp: invar_def)

text \<open>
  Claim C2. For a node whose two subtrees are AVL-valid with correct cached heights and
  whose balance factor is at most 2 in absolute value (the balance factor is read from the
  children, so recomputing the node's own height does not change it), \<^verbatim>\<open>balance\<close> returns
  a subtree root; the returned subtree is AVL-valid with correct cached heights and has the
  in-order sequence of the input. When the balance factor is at most 1 in absolute value,
  the result is the same node over the same two children, with its height recomputed and no
  rotation made.
\<close>
theorem balance_contract:
  assumes "avl l" and "avl r" and "\<bar>getBalance (Node v l r h)\<bar> \<le> 2"
  shows "\<exists>n'. balance (Node v l r h) = Some n' \<and> avl n'
           \<and> inOrder n' [] = inOrder (Node v l r h) []
           \<and> (\<bar>getBalance (Node v l r h)\<bar> \<le> 1 \<longrightarrow>
                n' = Node v l r (1 + max (getHeight l) (getHeight r)))"
proof -
  from assms(3) have "\<bar>getHeight l - getHeight r\<bar> \<le> 2" by simp
  from balance_spec[OF assms(1,2) this, of v h] show ?thesis
    by (auto simp: inOrder_inorder)
qed

theorem balance_contract_witness:
  "avl (Node (1::int) Null (Node 2 Null Null 1) 2) \<and> avl (Null :: int node)
   \<and> \<bar>getBalance (Node 3 (Node (1::int) Null (Node 2 Null Null 1) 2) Null 1)\<bar> \<le> 2
   \<and> (\<exists>n'. balance (Node 3 (Node (1::int) Null (Node 2 Null Null 1) 2) Null 1) = Some n'
          \<and> avl n' \<and> inOrder n' [] = [1, 2, 3])"
  using balance_contract[of "Node (1::int) Null (Node 2 Null Null 1) 2" Null 3 1]
  by simp

text \<open>
  Claim C3. Inserting pairwise distinct values, in any order, into an initially empty tree
  and taking the in-order traversal yields the sorted sequence of the set of these values.
\<close>
theorem insert_round_trip:
  "distinct xs \<Longrightarrow>
   \<exists>t. run_calls new_tree (map Insert xs) = Some t
      \<and> inOrderTraversal t = sorted_list_of_set (set xs)"
proof -
  from run_inserts_set[OF invar_new_tree, of xs] obtain t where
    t: "run_calls new_tree (map Insert xs) = Some t" "invar t"
    "set (inOrderTraversal t) = set (inOrderTraversal new_tree) \<union> set xs" by blast
  from t(3) have "set (inOrderTraversal t) = set xs"
    by (simp add: inOrderTraversal_def new_tree_def)
  with strict_sorted_list_of_set[OF invar_sorted[OF t(2)]] t(1) show ?thesis by auto
qed

theorem insert_round_trip_witness:
  "distinct [3, 1, 2 :: int] \<and>
   (\<exists>t. run_calls new_tree (map Insert [3, 1, 2 :: int]) = Some t
      \<and> inOrderTraversal t = [1, 2, 3])"
  using insert_round_trip[of "[3, 1, 2 :: int]"]
  by (simp add: sorted_list_of_set.idem_if_sorted_distinct[of "[1,2,3::int]", simplified])


text \<open>
  Claim C4. On a tree that satisfies the data-model invariants, \<^verbatim>\<open>remove(v)\<close> completes;
  afterwards \<^verbatim>\<open>contains(v)\<close> is false and \<^verbatim>\<open>contains(w)\<close> answers as before for every
  other value \<open>w\<close> (stored before or not).
\<close>
theorem deletion_correctness:
  assumes "invar t"
  shows "\<exists>t'. remove_pub t v = Some t' \<and> \<not> contains t' v
           \<and> (\<forall>w. w \<noteq> v \<longrightarrow> contains t' w = contains t w)"
proof -
  from remove_pub_invar[OF assms, of v] obtain t' where t':
    "remove_pub t v = Some t'" "invar t'"
    "inOrderTraversal t' = removeAll v (inOrderTraversal t)" by blast
  from assms t'(2) have c: "\<And>w. contains t w = (w \<in> set (inOrderTraversal t))"
    "\<And>w. contains t' w = (w \<in> set (inOrderTraversal t'))"
    by (simp_all add: contains_def invar_def contains_node_iff inOrderTraversal_def inOrder_inorder)
  from t'(1,3) show ?thesis by (auto simp: c)
qed

theorem deletion_correctness_witness:
  "invar \<lparr>root = Node (20::int) (Node 10 Null Null 1) (Node 30 Null Null 1) 2\<rparr>
   \<and> (\<exists>t'. remove_pub \<lparr>root = Node (20::int) (Node 10 Null Null 1) (Node 30 Null Null 1) 2\<rparr> 20 = Some t'
        \<and> \<not> contains t' 20
        \<and> (\<forall>w. w \<noteq> 20 \<longrightarrow> contains t' w
              = contains \<lparr>root = Node (20::int) (Node 10 Null Null 1) (Node 30 Null Null 1) 2\<rparr> w))"
  using deletion_correctness[of "\<lparr>root = Node (20::int) (Node 10 Null Null 1) (Node 30 Null Null 1) 2\<rparr>" 20]
  by (simp add: invar_def bst_def)

text \<open>
  Claim C5. Rotate-right on a node \<open>y\<close> with left child \<open>x\<close> returns \<open>x\<close> as the new
  root, with \<open>x\<close>'s former right child \<open>b\<close> as \<open>y\<close>'s left child and \<open>y\<close> as \<open>x\<close>'s
  right child. Only the heights of these two nodes are rewritten, \<open>y\<close>'s first and then
  \<open>x\<close>'s from \<open>y\<close>'s new height; the subtrees \<open>a\<close>, \<open>b\<close>, \<open>c\<close> are untouched. The
  in-order sequence and the number of nodes are those of the input. Rotate-left on a node
  with a right child is the mirror image. The cached heights of \<open>a\<close>, \<open>b\<close>, \<open>c\<close> are any
  32-bit values up to \<open>INT_MAX - 2\<close>, so that neither \<^verbatim>\<open>updateHeight\<close> overflows: the
  new heights are 32-bit values.
\<close>
theorem rotations:
  assumes "height_room (getHeight a)" and "height_room (getHeight b)"
    and "height_room (getHeight c)"
  shows "rotateRight (Node yv (Node xv a b xh) c yh)
     = Some (Node xv a (Node yv b c (1 + max (getHeight b) (getHeight c)))
               (1 + max (getHeight a) (1 + max (getHeight b) (getHeight c))))
   \<and> int32 (1 + max (getHeight b) (getHeight c))
   \<and> int32 (1 + max (getHeight a) (1 + max (getHeight b) (getHeight c)))
   \<and> map_option (\<lambda>n. inOrder n []) (rotateRight (Node yv (Node xv a b xh) c yh))
       = Some (inOrder (Node yv (Node xv a b xh) c yh) [])
   \<and> map_option nodes (rotateRight (Node yv (Node xv a b xh) c yh))
       = Some (nodes (Node yv (Node xv a b xh) c yh))
   \<and> rotateLeft (Node xv a (Node yv b c yh) xh)
     = Some (Node yv (Node xv a b (1 + max (getHeight a) (getHeight b))) c
               (1 + max (1 + max (getHeight a) (getHeight b)) (getHeight c)))
   \<and> int32 (1 + max (getHeight a) (getHeight b))
   \<and> int32 (1 + max (1 + max (getHeight a) (getHeight b)) (getHeight c))
   \<and> map_option (\<lambda>n. inOrder n []) (rotateLeft (Node xv a (Node yv b c yh) xh))
       = Some (inOrder (Node xv a (Node yv b c yh) xh) [])
   \<and> map_option nodes (rotateLeft (Node xv a (Node yv b c yh) xh))
       = Some (nodes (Node xv a (Node yv b c yh) xh))"
  using assms by (auto simp: inOrder_inorder int32_def height_room_def)

theorem rotations_witness:
  "height_room (getHeight (Node (1::int) Null Null 1))
   \<and> height_room (getHeight (Node (3::int) Null Null 1))
   \<and> height_room (getHeight (Null :: int node))
   \<and> rotateRight (Node 4 (Node 2 (Node (1::int) Null Null 1) (Node 3 Null Null 1) 2) Null 3)
     = Some (Node 2 (Node 1 Null Null 1) (Node 4 (Node 3 Null Null 1) Null 2) 3)
   \<and> rotateLeft (Node 2 (Node (1::int) Null Null 1) (Node 4 (Node 3 Null Null 1) Null 2) 3)
     = Some (Node 4 (Node 2 (Node 1 Null Null 1) (Node 3 Null Null 1) 2) Null 3)"
  using rotations[of "Node (1::int) Null Null 1" "Node (3::int) Null Null 1" Null 4 2 2 3]
    rotations[of "Node (1::int) Null Null 1" "Node (3::int) Null Null 1" Null 4 2 3 2]
  by (simp add: height_room_def)

text \<open>
  Claim C6. Inserting \<open>n\<close> distinct values into an initially empty tree gives a tree of
  height \<open>h\<close> with \<open>fib (h + 2) \<le> n + 1\<close> and, for every \<open>n < 2 ^ 512\<close>, which covers every
  tree whose nodes fit into a 64-bit address space, \<open>h \<le> 1.44 * log 2 (n + 2)\<close>.
  Inserting 1, 2, 3, 4, 5 in this order gives a tree of height exactly 3.
\<close>
theorem height_bound:
  "(distinct xs \<longrightarrow>
      (\<exists>t. run_calls new_tree (map Insert xs) = Some t
         \<and> fib (nat (depth (root t)) + 2) \<le> length xs + 1
         \<and> (length xs < 2 ^ 512 \<longrightarrow>
               real_of_int (depth (root t)) \<le> 1.44 * log 2 (real (length xs) + 2))))
   \<and> run_calls new_tree (map Insert [1, 2, 3, 4, 5 :: int])
       = Some \<lparr>root = Node 2 (Node 1 Null Null 1)
                          (Node 4 (Node 3 Null Null 1) (Node 5 Null Null 1) 2) 3\<rparr>
   \<and> depth (Node (2::int) (Node 1 Null Null 1)
                          (Node 4 (Node 3 Null Null 1) (Node 5 Null Null 1) 2) 3) = 3"
proof (intro conjI impI)
  assume "distinct xs"
  from inserts_size[OF this] obtain t where
    t: "run_calls new_tree (map Insert xs) = Some t" "avl (root t)"
    "nodes (root t) = length xs" by blast
  let ?h = "nat (depth (root t))"
  from avl_fib_size[OF t(2)] avl_depth[OF t(2)] t(3)
  have f: "fib (?h + 2) \<le> length xs + 1" by simp
  have "real_of_int (depth (root t)) \<le> 1.44 * log 2 (real (length xs) + 2)"
    if n: "length xs < 2 ^ 512"
  proof -
    from height_small[OF f n] have "?h \<le> 768" by simp
    from height_log_bound[OF f this] depth_nonneg[of "root t"] show ?thesis by simp
  qed
  with t(1) f show "\<exists>t. run_calls new_tree (map Insert xs) = Some t
         \<and> fib (nat (depth (root t)) + 2) \<le> length xs + 1
         \<and> (length xs < 2 ^ 512 \<longrightarrow>
               real_of_int (depth (root t)) \<le> 1.44 * log 2 (real (length xs) + 2))"
    by blast
next
  show "run_calls new_tree (map Insert [1, 2, 3, 4, 5 :: int])
       = Some \<lparr>root = Node 2 (Node 1 Null Null 1)
                          (Node 4 (Node 3 Null Null 1) (Node 5 Null Null 1) 2) 3\<rparr>"
    by (simp add: new_tree_def insert_pub_def balance_def Let_def)
next
  show "depth (Node (2::int) (Node 1 Null Null 1)
                          (Node 4 (Node 3 Null Null 1) (Node 5 Null Null 1) 2) 3) = 3"
    by simp
qed

theorem height_bound_witness:
  "distinct [1, 2, 3, 4, 5 :: int] \<and> length [1, 2, 3, 4, 5 :: int] < 2 ^ 512
   \<and> (\<exists>t. run_calls new_tree (map Insert [1, 2, 3, 4, 5 :: int]) = Some t
         \<and> fib (nat (depth (root t)) + 2) \<le> length [1, 2, 3, 4, 5 :: int] + 1
         \<and> real_of_int (depth (root t)) \<le> 1.44 * log 2 (real (length [1, 2, 3, 4, 5 :: int]) + 2))"
proof -
  have d: "distinct [1, 2, 3, 4, 5 :: int]" by simp
  have n: "length [1, 2, 3, 4, 5 :: int] < 2 ^ 512" by simp
  from height_bound[of "[1, 2, 3, 4, 5 :: int]"] d n show ?thesis by blast
qed

text \<open>
  Claim C7. For every tree the interface can build and every value \<open>v\<close> stored in it,
  \<^verbatim>\<open>insert(v)\<close> completes and leaves the tree as it was: the same nodes with the same
  values, links and cached heights, hence the same answers from \<^verbatim>\<open>contains\<close> and the
  same in-order traversal.
\<close>
theorem insert_idempotent:
  assumes "run_calls new_tree cs = Some t" and "v \<in> set (inOrderTraversal t)"
  shows "insert_pub t v = Some t"
proof -
  from run_calls_invar[OF invar_new_tree, of cs] assms(1) have i: "invar t" by auto
  with assms(2) have "contains_node (root t) v"
    by (simp add: invar_def contains_node_iff inOrderTraversal_def inOrder_inorder)
  with i show ?thesis
    by (simp add: insert_pub_def invar_def insert_node_present)
qed

theorem insert_idempotent_witness:
  "run_calls new_tree (map Insert [10, 20, 30 :: int])
     = Some \<lparr>root = Node 20 (Node 10 Null Null 1) (Node 30 Null Null 1) 2\<rparr>
   \<and> 30 \<in> set (inOrderTraversal \<lparr>root = Node (20::int) (Node 10 Null Null 1) (Node 30 Null Null 1) 2\<rparr>)
   \<and> insert_pub \<lparr>root = Node (20::int) (Node 10 Null Null 1) (Node 30 Null Null 1) 2\<rparr> 30
     = Some \<lparr>root = Node 20 (Node 10 Null Null 1) (Node 30 Null Null 1) 2\<rparr>"
  using insert_idempotent[of "map Insert [10, 20, 30 :: int]"
      "\<lparr>root = Node 20 (Node 10 Null Null 1) (Node 30 Null Null 1) 2\<rparr>" 30]
  by (simp add: run_simps)

text \<open>
  Claim C8. Inserting 10, 20, 30, 40, 50, 25 in this order into an empty tree gives a tree
  with root value 30 and in-order traversal \<open>[10, 20, 25, 30, 40, 50]\<close>. After
  \<^verbatim>\<open>remove(30)\<close>, \<^verbatim>\<open>contains(30)\<close> is false, the in-order traversal is
  \<open>[10, 20, 25, 40, 50]\<close> and the balance factor of the root is 1, which lies in
  \<open>{-1, 0, 1}\<close>.
\<close>
theorem demo_scenario:
  "run_calls new_tree (map Insert [10, 20, 30, 40, 50, 25 :: int])
     = Some \<lparr>root = Node 30 (Node 20 (Node 10 Null Null 1) (Node 25 Null Null 1) 2)
                             (Node 40 Null (Node 50 Null Null 1) 2) 3\<rparr>
   \<and> inOrderTraversal \<lparr>root = Node (30::int) (Node 20 (Node 10 Null Null 1) (Node 25 Null Null 1) 2)
                             (Node 40 Null (Node 50 Null Null 1) 2) 3\<rparr> = [10, 20, 25, 30, 40, 50]
   \<and> remove_pub \<lparr>root = Node (30::int) (Node 20 (Node 10 Null Null 1) (Node 25 Null Null 1) 2)
                             (Node 40 Null (Node 50 Null Null 1) 2) 3\<rparr> 30
     = Some \<lparr>root = Node 40 (Node 20 (Node 10 Null Null 1) (Node 25 Null Null 1) 2)
                             (Node 50 Null Null 1) 3\<rparr>
   \<and> \<not> contains \<lparr>root = Node (40::int) (Node 20 (Node 10 Null Null 1) (Node 25 Null Null 1) 2)
                             (Node 50 Null Null 1) 3\<rparr> 30
   \<and> inOrderTraversal \<lparr>root = Node (40::int) (Node 20 (Node 10 Null Null 1) (Node 25 Null Null 1) 2)
                             (Node 50 Null Null 1) 3\<rparr> = [10, 20, 25, 40, 50]
   \<and> getBalance (Node (40::int) (Node 20 (Node 10 Null Null 1) (Node 25 Null Null 1) 2)
                             (Node 50 Null Null 1) 3) = 1"
  by (simp add: run_simps)

text \<open>
  Claim C9. For every tree the interface can build (the empty one included) and every
  value \<open>v\<close> not stored in it, \<^verbatim>\<open>remove(v)\<close> completes and leaves the tree as it was:
  structure, values and cached heights are identical, and \<^verbatim>\<open>empty()\<close> answers as before.
\<close>
theorem remove_absent_noop:
  assumes "run_calls new_tree cs = Some t" and "v \<notin> set (inOrderTraversal t)"
  shows "remove_pub t v = Some t \<and> map_option empty_tree (remove_pub t v) = Some (empty_tree t)"
proof -
  from run_calls_invar[OF invar_new_tree, of cs] assms(1) have i: "invar t" by auto
  with assms(2) have "\<not> contains_node (root t) v"
    by (simp add: invar_def contains_node_iff inOrderTraversal_def inOrder_inorder)
  with i show ?thesis
    by (simp add: remove_pub_def invar_def remove_node_absent)
qed

theorem remove_absent_noop_witness:
  "run_calls new_tree (map Insert [10, 20, 30 :: int])
     = Some \<lparr>root = Node 20 (Node 10 Null Null 1) (Node 30 Null Null 1) 2\<rparr>
   \<and> 25 \<notin> set (inOrderTraversal \<lparr>root = Node (20::int) (Node 10 Null Null 1) (Node 30 Null Null 1) 2\<rparr>)
   \<and> remove_pub \<lparr>root = Node (20::int) (Node 10 Null Null 1) (Node 30 Null Null 1) 2\<rparr> 25
     = Some \<lparr>root = Node 20 (Node 10 Null Null 1) (Node 30 Null Null 1) 2\<rparr>
   \<and> run_calls new_tree [] = Some (new_tree :: int AVLTree)
   \<and> 25 \<notin> set (inOrderTraversal (new_tree :: int AVLTree))
   \<and> remove_pub (new_tree :: int AVLTree) 25 = Some new_tree
   \<and> empty_tree (new_tree :: int AVLTree)"
  using remove_absent_noop[of "map Insert [10, 20, 30 :: int]"
      "\<lparr>root = Node 20 (Node 10 Null Null 1) (Node 30 Null Null 1) 2\<rparr>" 25]
    remove_absent_noop[of "[]" "new_tree :: int AVLTree" 25]
  by (simp add: run_simps)

text \<open>
  Claim C10. Under the data-model invariants no helper dereferences an absent node.
  \<^verbatim>\<open>balance\<close> on a node over AVL-valid subtrees with balance factor at most 2 in absolute
  value does not fail; where it calls \<^verbatim>\<open>rotateRight\<close> the left child is present, where
  it first calls \<^verbatim>\<open>rotateLeft\<close> on the left child that child's right child is present, and
  symmetrically on the right. On an AVL-valid non-empty subtree \<^verbatim>\<open>findMin\<close> returns a
  node and \<^verbatim>\<open>removeMin\<close> does not fail, and \<^verbatim>\<open>remove\<close> on an AVL-valid subtree does
  not fail.
\<close>
theorem safe_dereferences:
  "(avl l \<and> avl r \<and> \<bar>getHeight l - getHeight r\<bar> \<le> 2 \<longrightarrow>
      balance (Node v l r h) \<noteq> None
      \<and> (1 < getHeight l - getHeight r \<longrightarrow> l \<noteq> Null \<and> (getBalance l < 0 \<longrightarrow> right l \<noteq> Null))
      \<and> (getHeight l - getHeight r < - 1 \<longrightarrow> r \<noteq> Null \<and> (0 < getBalance r \<longrightarrow> left r \<noteq> Null)))
   \<and> (avl n \<and> n \<noteq> Null \<longrightarrow> findMin n \<noteq> Null \<and> removeMin n \<noteq> None)
   \<and> (avl n \<longrightarrow> remove_node n x \<noteq> None)"
proof (intro conjI impI)
  assume a: "avl l \<and> avl r \<and> \<bar>getHeight l - getHeight r\<bar> \<le> 2"
  then show "balance (Node v l r h) \<noteq> None"
    using balance_spec[of l r v h] by auto
  from a balance_safe[of l r] show "l \<noteq> Null" if "1 < getHeight l - getHeight r"
    using that by blast
  from a balance_safe[of l r] show "right l \<noteq> Null"
    if "1 < getHeight l - getHeight r" "getBalance l < 0" using that by blast
  from a balance_safe[of l r] show "r \<noteq> Null" if "getHeight l - getHeight r < - 1"
    using that by blast
  from a balance_safe[of l r] show "left r \<noteq> Null"
    if "getHeight l - getHeight r < - 1" "0 < getBalance r" using that by blast
next
  assume "avl n \<and> n \<noteq> Null"
  then show "findMin n \<noteq> Null" "removeMin n \<noteq> None"
    using removeMin_spec[of n] by auto
next
  assume "avl n"
  then show "remove_node n x \<noteq> None" using remove_node_spec[of n x] by auto
qed


theorem safe_dereferences_witness:
  "avl (Node (1::int) Null (Node 2 Null Null 1) 2) \<and> avl (Null :: int node)
   \<and> \<bar>getHeight (Node (1::int) Null (Node 2 Null Null 1) 2) - getHeight (Null :: int node)\<bar> \<le> 2
   \<and> balance (Node 3 (Node (1::int) Null (Node 2 Null Null 1) 2) Null 1) \<noteq> None
   \<and> 1 < getHeight (Node (1::int) Null (Node 2 Null Null 1) 2) - getHeight (Null :: int node)
   \<and> getBalance (Node (1::int) Null (Node 2 Null Null 1) 2) < 0
   \<and> right (Node (1::int) Null (Node 2 Null Null 1) 2) \<noteq> Null
   \<and> avl (Node (3::int) (Node 2 Null Null 1) Null 2)
   \<and> \<bar>getHeight (Null :: int node) - getHeight (Node (3::int) (Node 2 Null Null 1) Null 2)\<bar> \<le> 2
   \<and> balance (Node 1 Null (Node (3::int) (Node 2 Null Null 1) Null 2) 1) \<noteq> None
   \<and> getHeight (Null :: int node) - getHeight (Node (3::int) (Node 2 Null Null 1) Null 2) < - 1
   \<and> 0 < getBalance (Node (3::int) (Node 2 Null Null 1) Null 2)
   \<and> left (Node (3::int) (Node 2 Null Null 1) Null 2) \<noteq> Null
   \<and> avl (Node (20::int) (Node 10 Null Null 1) (Node 30 Null Null 1) 2)
   \<and> findMin (Node (20::int) (Node 10 Null Null 1) (Node 30 Null Null 1) 2) \<noteq> Null
   \<and> removeMin (Node (20::int) (Node 10 Null Null 1) (Node 30 Null Null 1) 2) \<noteq> None
   \<and> remove_node (Node (20::int) (Node 10 Null Null 1) (Node 30 Null Null 1) 2) 20 \<noteq> None"
  using safe_dereferences[of "Node (1::int) Null (Node 2 Null Null 1) 2" Null 3 1
      "Node (20::int) (Node 10 Null Null 1) (Node 30 Null Null 1) 2" 20]
    safe_dereferences[of Null "Node (3::int) (Node 2 Null Null 1) Null 2" 1 1
      "Node (20::int) (Node 10 Null Null 1) (Node 30 Null Null 1) 2" 20]
  by simp

end
